theory Spec2Isabelle
  imports Main "HOL-Library.AList" "HOL-Library.Sublist"
begin

section \<open>Values and strings\<close>

text \<open>
  A Python \<open>str\<close> is a sequence of Unicode code points; it is modelled as a list of
  natural numbers, one per code point. \<open>ustr\<close> writes an ASCII literal as such a list.
\<close>

type_synonym pystr = "nat list"

definition ustr :: "string \<Rightarrow> pystr" where
  "ustr s = map of_char s"

definition lbrace :: nat where "lbrace = 123"
definition rbrace :: nat where "rbrace = 125"
definition dot :: nat where "dot = 46"

text \<open>
  The values a context holds are JSON-like: \<open>None\<close>, booleans, integers, strings,
  lists and dictionaries with string keys (in insertion order). Floating-point numbers
  are outside the model.
\<close>

datatype pyval =
    PNone
  | PBool bool
  | PInt int
  | PStr pystr
  | PList "pyval list"
  | PDict "(pystr \<times> pyval) list"

type_synonym pydict = "(pystr \<times> pyval) list"

text \<open>The characters \<open>str.strip()\<close> removes: those for which \<open>str.isspace()\<close> holds.\<close>

definition is_space :: "nat \<Rightarrow> bool" where
  "is_space c \<longleftrightarrow>
     (9 \<le> c \<and> c \<le> 13) \<or> (28 \<le> c \<and> c \<le> 32) \<or> c = 133 \<or> c = 160 \<or> c = 5760 \<or>
     (8192 \<le> c \<and> c \<le> 8202) \<or> c = 8232 \<or> c = 8233 \<or> c = 8239 \<or> c = 8287 \<or> c = 12288"

definition strip :: "pystr \<Rightarrow> pystr" where
  "strip s = rev (dropWhile is_space (rev (dropWhile is_space s)))"

text \<open>\<open>path.split(".")\<close>: always at least one part.\<close>

fun split_dot :: "pystr \<Rightarrow> pystr list" where
  "split_dot [] = [[]]"
| "split_dot (c # cs) =
     (if c = dot then [] # split_dot cs
      else (case split_dot cs of p # ps \<Rightarrow> (c # p) # ps | [] \<Rightarrow> [[c]]))"

text \<open>\<open>str(value)\<close> on scalars. Decimal digits of a natural number, most significant first.\<close>

function dec_nat :: "nat \<Rightarrow> pystr" where
  "dec_nat n = (if n < 10 then [48 + n] else dec_nat (n div 10) @ [48 + n mod 10])"
  by pat_completeness auto
termination
  by (relation "measure id") auto

definition dec_int :: "int \<Rightarrow> pystr" where
  "dec_int i = (if i < 0 then 45 # dec_nat (nat (- i)) else dec_nat (nat i))"

text \<open>
  \<open>str(value)\<close>. The textual form of a list or a dictionary is Python's \<open>repr\<close>, which is
  not modelled: it is the parameter \<open>rp\<close>, and every theorem holds for every \<open>rp\<close>.
\<close>

fun py_str :: "(pyval \<Rightarrow> pystr) \<Rightarrow> pyval \<Rightarrow> pystr" where
  "py_str rp PNone = ustr ''None''"
| "py_str rp (PBool b) = (if b then ustr ''True'' else ustr ''False'')"
| "py_str rp (PInt i) = dec_int i"
| "py_str rp (PStr s) = s"
| "py_str rp v = rp v"

section \<open>Variable resolution (\<open>ExecutionContext.resolve_variables\<close>)\<close>

text \<open>
  \<open>_get_nested_value\<close>: descend from the variables dictionary along the parts of the path;
  a value that is not a dictionary, a missing key and a stored \<open>None\<close> all return \<open>None\<close>.
\<close>

fun descend :: "pyval \<Rightarrow> pystr list \<Rightarrow> pyval" where
  "descend v [] = v"
| "descend v (part # parts) =
     (case v of
        PDict d \<Rightarrow>
          (case map_of d part of
             None \<Rightarrow> PNone
           | Some v' \<Rightarrow> if v' = PNone then PNone else descend v' parts)
      | _ \<Rightarrow> PNone)"

definition get_nested_value :: "pydict \<Rightarrow> pystr \<Rightarrow> pyval" where
  "get_nested_value variables path = descend (PDict variables) (split_dot path)"

text \<open>
  The pattern \<open>\{\{([^}]+)\}\}\<close> tried at the head of a string: two opening braces, the
  longest non-empty run of characters other than a closing brace, two closing braces.
  The result is group 1 and the text after the match.
\<close>

definition match_token :: "pystr \<Rightarrow> (pystr \<times> pystr) option" where
  "match_token s =
     (case s of
        a # b # t \<Rightarrow>
          if a = lbrace \<and> b = lbrace then
            (let inner = takeWhile (\<lambda>c. c \<noteq> rbrace) t;
                 rest = dropWhile (\<lambda>c. c \<noteq> rbrace) t
             in (case rest of
                   c # d # rest' \<Rightarrow>
                     if inner \<noteq> [] \<and> d = rbrace then Some (inner, rest') else None
                 | _ \<Rightarrow> None))
          else None
      | _ \<Rightarrow> None)"

lemma match_token_shorter:
  assumes "match_token s = Some (inner, rest)"
  shows "length rest < length s"
proof -
  from assms obtain a b t where s: "s = a # b # t"
    by (cases s rule: list.exhaust; cases "tl s") (auto simp: match_token_def)
  let ?r = "dropWhile (\<lambda>c. c \<noteq> rbrace) t"
  from assms s obtain c d where r: "?r = c # d # rest"
    by (auto simp: match_token_def Let_def split: if_splits list.splits)
  have "length ?r \<le> length t" by (rule length_dropWhile_le)
  with r s show ?thesis by simp
qed

text \<open>
  \<open>re.sub\<close> scans left to right for non-overlapping matches. \<open>scan\<close> cuts the text into
  the matches (tokens, with their group 1) and the characters between them.
\<close>

datatype piece = Lit nat | Tok pystr

function scan :: "pystr \<Rightarrow> piece list" where
  "scan [] = []"
| "scan (c # cs) =
     (case match_token (c # cs) of
        Some (inner, rest) \<Rightarrow> Tok inner # scan rest
      | None \<Rightarrow> Lit c # scan cs)"
  by pat_completeness auto
termination
  by (relation "measure length") (auto dest: match_token_shorter)

text \<open>\<open>match.group(0)\<close> of a token, and the text a piece stands for.\<close>

definition token_text :: "pystr \<Rightarrow> pystr" where
  "token_text inner = [lbrace, lbrace] @ inner @ [rbrace, rbrace]"

fun piece_text :: "piece \<Rightarrow> pystr" where
  "piece_text (Lit c) = [c]"
| "piece_text (Tok inner) = token_text inner"

definition replace_var :: "(pyval \<Rightarrow> pystr) \<Rightarrow> pydict \<Rightarrow> pystr \<Rightarrow> pystr" where
  "replace_var rp variables inner =
     (let var_path = strip inner;
          v = get_nested_value variables var_path
      in if v \<noteq> PNone then py_str rp v else token_text inner)"

fun sub_piece :: "(pyval \<Rightarrow> pystr) \<Rightarrow> pydict \<Rightarrow> piece \<Rightarrow> pystr" where
  "sub_piece rp variables (Lit c) = [c]"
| "sub_piece rp variables (Tok inner) = replace_var rp variables inner"

definition resolve_variables :: "(pyval \<Rightarrow> pystr) \<Rightarrow> pydict \<Rightarrow> pystr \<Rightarrow> pystr" where
  "resolve_variables rp variables text = concat (map (sub_piece rp variables) (scan text))"

text \<open>
  The specification's reading of a lookup: descend while the current value is a keyed
  container holding the next segment; otherwise the path is absent.
\<close>

fun spec_lookup :: "pyval \<Rightarrow> pystr list \<Rightarrow> pyval option" where
  "spec_lookup v [] = Some v"
| "spec_lookup v (part # parts) =
     (case v of
        PDict d \<Rightarrow> (case map_of d part of None \<Rightarrow> None | Some v' \<Rightarrow> spec_lookup v' parts)
      | _ \<Rightarrow> None)"

definition path_absent :: "pydict \<Rightarrow> pystr \<Rightarrow> bool" where
  "path_absent variables inner \<longleftrightarrow>
     spec_lookup (PDict variables) (split_dot (strip inner)) = None"

text \<open>A token is unresolved when its lookup returns \<open>None\<close>.\<close>

definition unresolved :: "pydict \<Rightarrow> piece \<Rightarrow> bool" where
  "unresolved variables p \<longleftrightarrow>
     (case p of Lit c \<Rightarrow> True | Tok inner \<Rightarrow> get_nested_value variables (strip inner) = PNone)"


definition tokens :: "pystr \<Rightarrow> pystr list" where
  "tokens s = concat (map (\<lambda>p. case p of Tok inner \<Rightarrow> [inner] | Lit c \<Rightarrow> []) (scan s))"

section \<open>Workflow definitions and the execution graph\<close>

record flow_node =
  node_id :: pystr
  node_type :: pystr
  node_config :: pydict

text \<open>An edge is the pair of its \<open>source\<close> and its \<open>target\<close>.\<close>

record workflow_definition =
  nodes :: "flow_node list"
  edges :: "(pystr \<times> pystr) list"

text \<open>
  The graph is a dictionary from a node id to the list of its successors, in insertion
  order. \<open>graph_get g n\<close> is \<open>graph.get(n, [])\<close>.
\<close>

type_synonym graph = "(pystr \<times> pystr list) list"

definition graph_get :: "graph \<Rightarrow> pystr \<Rightarrow> pystr list" where
  "graph_get g n = (case map_of g n of Some ts \<Rightarrow> ts | None \<Rightarrow> [])"

text \<open>
  \<open>_build_execution_graph\<close>: every node id becomes a key once; every edge appends its
  target to the list of its source. The dictionary is a \<open>defaultdict\<close>, so a source that
  is not a node id becomes a key as well.
\<close>

definition add_node :: "graph \<Rightarrow> flow_node \<Rightarrow> graph" where
  "add_node g node = (if node_id node \<in> fst ` set g then g else g @ [(node_id node, [])])"

definition add_edge :: "graph \<Rightarrow> pystr \<times> pystr \<Rightarrow> graph" where
  "add_edge g e = AList.update (fst e) (graph_get g (fst e) @ [snd e]) g"

definition build_execution_graph :: "workflow_definition \<Rightarrow> graph" where
  "build_execution_graph d = foldl add_edge (foldl add_node [] (nodes d)) (edges d)"

text \<open>
  \<open>_has_cycle\<close>: the nested function \<open>dfs\<close> shares the sets \<open>visited\<close> and \<open>rec_stack\<close>
  with the loop around it; here it takes the pair of them and returns it updated.
  \<open>dfs\<close> calls itself once for every node on the path it follows, and the interpreter
  bounds the depth of its call stack (\<open>sys.getrecursionlimit()\<close>, 1000 unless it is
  changed, and nothing in the repository changes it): the first argument is the number
  of nested calls of \<open>dfs\<close> that are still possible, and the call that would exceed it
  raises \<open>RecursionError\<close>, here the result \<open>None\<close>, which ends the whole search.
  (\<open>rec_stack.remove(node)\<close> removes a node that was added on entry.)
\<close>

type_synonym dfs_state = "pystr set \<times> pystr set"

fun dfs :: "nat \<Rightarrow> graph \<Rightarrow> pystr \<Rightarrow> dfs_state \<Rightarrow> (bool \<times> dfs_state) option"
and dfs_neighbors :: "nat \<Rightarrow> graph \<Rightarrow> pystr list \<Rightarrow> dfs_state \<Rightarrow> (bool \<times> dfs_state) option"
where
  "dfs 0 g node s = None"
| "dfs (Suc k) g node s =
     (case dfs_neighbors k g (graph_get g node) (insert node (fst s), insert node (snd s)) of
        None \<Rightarrow> None
      | Some (True, s') \<Rightarrow> Some (True, s')
      | Some (False, s') \<Rightarrow> Some (False, (fst s', snd s' - {node})))"
| "dfs_neighbors k g [] s = Some (False, s)"
| "dfs_neighbors k g (neighbor # rest) s =
     (if neighbor \<notin> fst s then
        (case dfs k g neighbor s of
           None \<Rightarrow> None
         | Some (True, s') \<Rightarrow> Some (True, s')
         | Some (False, s') \<Rightarrow> dfs_neighbors k g rest s')
      else if neighbor \<in> snd s then Some (True, s)
      else dfs_neighbors k g rest s)"

fun has_cycle_loop :: "nat \<Rightarrow> graph \<Rightarrow> pystr list \<Rightarrow> dfs_state \<Rightarrow> bool option" where
  "has_cycle_loop k g [] s = Some False"
| "has_cycle_loop k g (node # rest) s =
     (if node \<notin> fst s then
        (case dfs k g node s of
           None \<Rightarrow> None
         | Some (True, s') \<Rightarrow> Some True
         | Some (False, s') \<Rightarrow> has_cycle_loop k g rest s')
      else has_cycle_loop k g rest s)"

text \<open>
  \<open>limit\<close> is the number of nested calls of \<open>dfs\<close> that the recursion limit leaves room
  for when \<open>_has_cycle\<close> is entered: the limit of the interpreter less the frames that
  are on the stack already.
\<close>

definition has_cycle :: "nat \<Rightarrow> graph \<Rightarrow> bool option" where
  "has_cycle limit g = has_cycle_loop limit g (map fst g) ({}, {})"

text \<open>The ids that occur in a graph: its keys and its successor entries.\<close>

definition vertices :: "graph \<Rightarrow> pystr list" where
  "vertices g = map fst g @ concat (map snd g)"

text \<open>The edge relation of a graph, and what a cycle of a relation is.\<close>

definition graph_rel :: "graph \<Rightarrow> (pystr \<times> pystr) set" where
  "graph_rel g = {(u, v). v \<in> set (graph_get g u)}"

definition cyclic :: "('a \<times> 'a) set \<Rightarrow> bool" where
  "cyclic E \<longleftrightarrow> (\<exists>v. (v, v) \<in> E\<^sup>+)"

text \<open>
  Notions for reasoning about the search: a set of finished nodes is settled when it is
  closed under the edges and no cycle passes through it.
\<close>

definition settled :: "('a \<times> 'a) set \<Rightarrow> 'a set \<Rightarrow> bool" where
  "settled E B \<longleftrightarrow> (\<forall>b\<in>B. \<forall>v. (b, v) \<in> E \<longrightarrow> v \<in> B) \<and> (\<forall>b\<in>B. (b, b) \<notin> E\<^sup>+)"

definition dfs_inv :: "graph \<Rightarrow> pystr \<Rightarrow> dfs_state \<Rightarrow> bool" where
  "dfs_inv g n s \<longleftrightarrow>
     snd s \<subseteq> fst s \<and> settled (graph_rel g) (fst s - snd s) \<and> (\<forall>x\<in>snd s. (x, n) \<in> (graph_rel g)\<^sup>*)"

definition dfs_post :: "graph \<Rightarrow> dfs_state \<Rightarrow> pystr set \<Rightarrow> bool \<times> dfs_state \<Rightarrow> bool" where
  "dfs_post g s done r \<longleftrightarrow>
     (if fst r then cyclic (graph_rel g)
      else snd (snd r) = snd s \<and> fst s \<subseteq> fst (snd r) \<and> done \<subseteq> fst (snd r) - snd s \<and>
           settled (graph_rel g) (fst (snd r) - snd s))"

definition loop_post :: "graph \<Rightarrow> pystr set \<Rightarrow> bool \<Rightarrow> bool" where
  "loop_post g A b \<longleftrightarrow>
     (if b then cyclic (graph_rel g) else \<exists>B. A \<subseteq> B \<and> settled (graph_rel g) B)"

section \<open>Execution context (\<open>ExecutionContext\<close>)\<close>

text \<open>
  Exceptions carry their class and their message (\<open>str(e)\<close>). Classes other than the
  three the code distinguishes are \<open>OtherException\<close>.
\<close>

datatype exn_kind = WorkflowEngineError | NodeValidationError | NodeExecutionError | OtherException

datatype exn = Exn exn_kind pystr



text \<open>
  A log message is a text; the message that reports the elapsed time of a node is kept
  symbolic, since wall-clock time is not modelled. Timestamps are left out of log entries.
\<close>

datatype message = Text pystr | CompletedIn pystr

record log_entry =
  lg_level :: pystr
  lg_message :: message
  lg_node :: "pystr option"

datatype event =
    NodeStatusEvent pystr pystr
  | LogEvent log_entry
  | RunningEvent
  | CompletedEvent pyval
  | FailedEvent pystr

text \<open>What an executor can read from the context.\<close>

record view =
  vw_input :: pydict
  vw_variables :: pydict
  vw_outputs :: pydict
  vw_statuses :: "(pystr \<times> pystr) list"

text \<open>
  The context. \<open>callback\<close> is the observer: given the events it has received so far and a
  new event, it returns normally (\<open>None\<close>) or raises. Two fields record what happened
  and are not fields of the class: \<open>events\<close>, the events the callback was called with, and
  \<open>invoked\<close>, the executors whose \<open>execute\<close> was called, each with what it could read at
  that moment.
\<close>

record ctx =
  input_data :: pydict
  callback :: "(event list \<Rightarrow> event \<Rightarrow> exn option) option"
  status :: pystr
  error :: "pystr option"
  variables :: pydict
  node_outputs :: pydict
  node_statuses :: "(pystr \<times> pystr) list"
  logs :: "log_entry list"
  events :: "event list"
  invoked :: "(pystr \<times> view) list"



text \<open>
  A method of the context takes the context and returns it updated, with either a value
  or the exception that was raised. What was changed before a raise stays changed.
\<close>

type_synonym 'a ctxm = "ctx \<Rightarrow> (exn + 'a) \<times> ctx"




text \<open>\<open>if self.callback: self.callback(event)\<close>.\<close>

definition fire :: "event \<Rightarrow> unit ctxm" where
  "fire ev = (\<lambda>c. case callback c of
       None \<Rightarrow> (Inr (), c)
     | Some cb \<Rightarrow>
         (case cb (events c) ev of
            None \<Rightarrow> (Inr (), c\<lparr>events := events c @ [ev]\<rparr>)
          | Some e \<Rightarrow> (Inl e, c\<lparr>events := events c @ [ev]\<rparr>)))"

definition set_node_output :: "pystr \<Rightarrow> pyval \<Rightarrow> unit ctxm" where
  "set_node_output nid out = (\<lambda>c.
     (Inr (), c\<lparr>node_outputs := AList.update nid out (node_outputs c),
                variables := AList.update (ustr ''nodes.'' @ nid) out (variables c)\<rparr>))"


definition set_node_status :: "pystr \<Rightarrow> pystr \<Rightarrow> unit ctxm" where
  "set_node_status nid st = (\<lambda>c.
     fire (NodeStatusEvent nid st) (c\<lparr>node_statuses := AList.update nid st (node_statuses c)\<rparr>))"

definition add_log :: "pystr \<Rightarrow> message \<Rightarrow> pystr option \<Rightarrow> unit ctxm" where
  "add_log level msg nid = (\<lambda>c.
     let log_entry = \<lparr>lg_level = level, lg_message = msg, lg_node = nid\<rparr>
     in fire (LogEvent log_entry) (c\<lparr>logs := logs c @ [log_entry]\<rparr>))"




section \<open>Node executors and the run template (\<open>NodeExecutor.run\<close>)\<close>

record node_result =
  nr_status :: pystr
  nr_output :: pyval
  nr_error :: "pystr option"

text \<open>
  What \<open>execute\<close> does with the context, beyond reading it, is adding log entries
  (\<open>log_info\<close>, \<open>log_warning\<close>, \<open>log_error\<close>). An execution is therefore a tree: it
  returns a result or raises, or it adds a log entry and goes on, depending on whether
  adding the entry raised (the observer callback may raise).
\<close>

datatype prog =
    Return "exn + node_result"
  | AddLog pystr pystr "exn option \<Rightarrow> prog"


primrec interp :: "prog \<Rightarrow> pystr \<Rightarrow> ctx \<Rightarrow> (exn + node_result) \<times> ctx" where
  "interp (Return r) nid c = (r, c)"
| "interp (AddLog level msg k) nid c =
     (case add_log level (Text msg) (Some nid) c of
        (Inl e, c') \<Rightarrow> interp (k (Some e)) nid c'
      | (Inr u, c') \<Rightarrow> interp (k None) nid c')"











section \<open>Workflow engine (\<open>WorkflowEngine\<close>)\<close>





















text \<open>
  \<open>_validate_graph\<close>. The third case is the \<open>RecursionError\<close> of a search that is deeper
  than the recursion limit allows; its message begins with the words given here.
\<close>

definition validate_graph :: "nat \<Rightarrow> graph \<Rightarrow> exn + unit" where
  "validate_graph limit g =
     (case has_cycle limit g of
        Some True \<Rightarrow> Inl (Exn WorkflowEngineError (ustr ''Workflow contains circular dependencies''))
      | Some False \<Rightarrow> Inr ()
      | None \<Rightarrow> Inl (Exn OtherException (ustr ''maximum recursion depth exceeded'')))"






section \<open>Properties of variable resolution\<close>


lemma match_token_text:
  assumes "match_token s = Some (inner, rest)"
  shows "s = token_text inner @ rest"
proof -
  from assms obtain a b t where s: "s = a # b # t"
    by (cases s rule: list.exhaust; cases "tl s") (auto simp: match_token_def)
  let ?i = "takeWhile (\<lambda>c. c \<noteq> rbrace) t"
  let ?r = "dropWhile (\<lambda>c. c \<noteq> rbrace) t"
  from assms s obtain c where r: "?r = c # rbrace # rest" and i: "inner = ?i" and ab: "a = lbrace" "b = lbrace"
    by (auto simp: match_token_def Let_def split: if_splits list.splits)
  have "c \<in> set ?r" using r by simp
  have "\<not> (hd ?r \<noteq> rbrace)" using r hd_dropWhile[of "\<lambda>c. c \<noteq> rbrace" t] by fastforce
  then have c: "c = rbrace" using r by simp
  have "t = ?i @ ?r" by simp
  with r i c ab s show ?thesis by (simp add: token_text_def)
qed

lemma scan_tiles: "concat (map piece_text (scan s)) = s"
proof (induction s rule: scan.induct)
  case 1 show ?case by simp
next
  case (2 c cs)
  show ?case
  proof (cases "match_token (c # cs)")
    case None with 2 show ?thesis by simp
  next
    case (Some p)
    obtain inner rest where p: "p = (inner, rest)" by (cases p)
    have sc: "scan (c # cs) = Tok inner # scan rest" using Some p by simp
    have ih: "concat (map piece_text (scan rest)) = rest"
      using 2(2)[OF Some[unfolded p] refl] .
    have "c # cs = token_text inner @ rest"
      using match_token_text[OF Some[unfolded p]] .
    then show ?thesis unfolding sc using ih by simp
  qed
qed

lemma descend_absent: "spec_lookup v ps = None \<Longrightarrow> descend v ps = PNone"
  by (induction v ps rule: spec_lookup.induct) (auto split: pyval.splits option.splits)

lemma descend_null:
  "spec_lookup v (take k ps) = Some PNone \<Longrightarrow> descend v ps = PNone"
proof (induction ps arbitrary: v k)
  case Nil then show ?case by simp
next
  case (Cons p ps)
  show ?case
  proof (cases k)
    case 0 with Cons.prems show ?thesis by simp
  next
    case (Suc j)
    with Cons.prems Cons.IH show ?thesis
      by (auto split: pyval.splits option.splits)
  qed
qed

lemma unresolved_fixed:
  "\<forall>p\<in>set ps. unresolved vars p \<Longrightarrow> map (sub_piece rp vars) ps = map piece_text ps"
  by (induction ps) (auto simp: unresolved_def replace_var_def Let_def split: piece.splits)

lemma resolve_fixed:
  "\<forall>p\<in>set (scan t). unresolved vars p \<Longrightarrow> resolve_variables rp vars t = t"
  by (simp add: resolve_variables_def unresolved_fixed scan_tiles)

lemma no_tokens_unresolved:
  "tokens s = [] \<Longrightarrow> \<forall>p\<in>set (scan s). unresolved vars p"
  unfolding tokens_def unresolved_def by (auto split: piece.splits)

lemma absent_unresolved:
  "path_absent vars inner \<Longrightarrow> get_nested_value vars (strip inner) = PNone"
  by (simp add: path_absent_def get_nested_value_def descend_absent)

lemmas eval_defs = resolve_variables_def ustr_def match_token_def lbrace_def rbrace_def dot_def
  replace_var_def get_nested_value_def strip_def is_space_def token_text_def

text \<open>
  Claim C4. The pieces of a text are the characters and the tokens the pattern finds, and
  they spell the text; resolution replaces each piece on its own; a token whose path is
  absent from the variables is replaced by its own text, character for character. With
  \<open>input = {"user": {"name": "Alice"}}\<close> the template
  \<open>Hello {{input.user.name}} \<emdash> {{missing}}\<close> (code point 8212 is the dash) resolves to
  \<open>Hello Alice \<emdash> {{missing}}\<close>.
\<close>

theorem absent_token_verbatim:
  "concat (map piece_text (scan s)) = s
   \<and> resolve_variables rp vars s = concat (map (sub_piece rp vars) (scan s))
   \<and> (\<forall>inner. Tok inner \<in> set (scan s) \<longrightarrow> path_absent vars inner \<longrightarrow>
         sub_piece rp vars (Tok inner) = piece_text (Tok inner))
   \<and> resolve_variables rp
        [(ustr ''input'', PDict [(ustr ''user'', PDict [(ustr ''name'', PStr (ustr ''Alice''))])])]
        (ustr ''Hello {{input.user.name}} '' @ [8212] @ ustr '' {{missing}}'')
       = ustr ''Hello Alice '' @ [8212] @ ustr '' {{missing}}''"
proof (intro conjI allI impI)
  show "concat (map piece_text (scan s)) = s" by (rule scan_tiles)
  show "resolve_variables rp vars s = concat (map (sub_piece rp vars) (scan s))"
    by (simp add: resolve_variables_def)
  show "sub_piece rp vars (Tok inner) = piece_text (Tok inner)" if "path_absent vars inner" for inner
    using absent_unresolved[OF that] by (simp add: replace_var_def)
  show "resolve_variables rp
        [(ustr ''input'', PDict [(ustr ''user'', PDict [(ustr ''name'', PStr (ustr ''Alice''))])])]
        (ustr ''Hello {{input.user.name}} '' @ [8212] @ ustr '' {{missing}}'')
       = ustr ''Hello Alice '' @ [8212] @ ustr '' {{missing}}''"
    by (simp add: eval_defs)
qed

text \<open>Witness for C4: the token \<open>{{missing}}\<close> of \<open>a{{missing}}\<close> stays as it is.\<close>

theorem absent_token_verbatim_witness:
  "Tok (ustr ''missing'') \<in> set (scan (ustr ''a{{missing}}''))
   \<and> path_absent [(ustr ''input'', PStr (ustr ''v''))] (ustr ''missing'')
   \<and> sub_piece (\<lambda>v. []) [(ustr ''input'', PStr (ustr ''v''))] (Tok (ustr ''missing''))
       = ustr ''{{missing}}''"
proof -
  have a: "Tok (ustr ''missing'') \<in> set (scan (ustr ''a{{missing}}''))"
    by (simp add: eval_defs)
  have b: "path_absent [(ustr ''input'', PStr (ustr ''v''))] (ustr ''missing'')"
    by (simp add: path_absent_def eval_defs)
  from absent_token_verbatim[of "ustr ''a{{missing}}''" "\<lambda>v. []" "[(ustr ''input'', PStr (ustr ''v''))]"] a b
  have "sub_piece (\<lambda>v. []) [(ustr ''input'', PStr (ustr ''v''))] (Tok (ustr ''missing''))
       = piece_text (Tok (ustr ''missing''))" by blast
  with a b show ?thesis by (simp add: eval_defs)
qed

text \<open>
  Claim C5, as stated, fails: with \<open>input = {"a": "{{input.b}}", "b": "x"}\<close> the text
  \<open>{{input.a}}\<close> resolves to \<open>{{input.b}}\<close>, and resolving that again gives \<open>x\<close>.
\<close>

theorem resolve_twice_counterexample:
  "resolve_variables (\<lambda>v. [])
      [(ustr ''input'', PDict [(ustr ''a'', PStr (ustr ''{{input.b}}'')), (ustr ''b'', PStr (ustr ''x''))])]
      (ustr ''{{input.a}}'') = ustr ''{{input.b}}''
   \<and> resolve_variables (\<lambda>v. [])
      [(ustr ''input'', PDict [(ustr ''a'', PStr (ustr ''{{input.b}}'')), (ustr ''b'', PStr (ustr ''x''))])]
      (resolve_variables (\<lambda>v. [])
        [(ustr ''input'', PDict [(ustr ''a'', PStr (ustr ''{{input.b}}'')), (ustr ''b'', PStr (ustr ''x''))])]
        (ustr ''{{input.a}}'')) = ustr ''x''"
  by (simp add: eval_defs)

text \<open>
  Claim C5, amended. A text with no token is returned unchanged; and resolving twice is
  the same as resolving once whenever every token left in the once-resolved text looks up
  to \<open>None\<close> (in particular when no token is left).
\<close>

theorem resolve_idempotent_when_settled:
  "(tokens s = [] \<longrightarrow> resolve_variables rp vars s = s)
   \<and> ((\<forall>p\<in>set (scan (resolve_variables rp vars s)). unresolved vars p) \<longrightarrow>
        resolve_variables rp vars (resolve_variables rp vars s) = resolve_variables rp vars s)"
  using no_tokens_unresolved[of s vars] resolve_fixed[of s vars rp]
    resolve_fixed[of "resolve_variables rp vars s" vars rp] by blast

text \<open>Witness for C5 (amended): a plain text, and a text with one resolved and one absent token.\<close>

theorem resolve_idempotent_when_settled_witness:
  "tokens (ustr ''plain text'') = []
   \<and> resolve_variables (\<lambda>v. []) [(ustr ''input'', PDict [(ustr ''a'', PStr (ustr ''v''))])] (ustr ''plain text'')
       = ustr ''plain text''
   \<and> resolve_variables (\<lambda>v. []) [(ustr ''input'', PDict [(ustr ''a'', PStr (ustr ''v''))])] (ustr ''{{input.a}} {{zz}}'')
       = ustr ''v {{zz}}''
   \<and> resolve_variables (\<lambda>v. []) [(ustr ''input'', PDict [(ustr ''a'', PStr (ustr ''v''))])]
       (resolve_variables (\<lambda>v. []) [(ustr ''input'', PDict [(ustr ''a'', PStr (ustr ''v''))])] (ustr ''{{input.a}} {{zz}}''))
       = resolve_variables (\<lambda>v. []) [(ustr ''input'', PDict [(ustr ''a'', PStr (ustr ''v''))])] (ustr ''{{input.a}} {{zz}}'')"
proof -
  let ?V = "[(ustr ''input'', PDict [(ustr ''a'', PStr (ustr ''v''))])]"
  have t: "tokens (ustr ''plain text'') = []" by (simp add: tokens_def eval_defs)
  have r: "resolve_variables (\<lambda>v. []) ?V (ustr ''{{input.a}} {{zz}}'') = ustr ''v {{zz}}''"
    by (simp add: eval_defs)
  have u: "\<forall>p\<in>set (scan (resolve_variables (\<lambda>v. []) ?V (ustr ''{{input.a}} {{zz}}''))). unresolved ?V p"
    unfolding r by (simp add: unresolved_def eval_defs)
  from resolve_idempotent_when_settled[of "ustr ''plain text''" "\<lambda>v. []" ?V] t
  have 1: "resolve_variables (\<lambda>v. []) ?V (ustr ''plain text'') = ustr ''plain text''" by blast
  from resolve_idempotent_when_settled[of "ustr ''{{input.a}} {{zz}}''" "\<lambda>v. []" ?V] u
  have 2: "resolve_variables (\<lambda>v. []) ?V (resolve_variables (\<lambda>v. []) ?V (ustr ''{{input.a}} {{zz}}''))
       = resolve_variables (\<lambda>v. []) ?V (ustr ''{{input.a}} {{zz}}'')" by blast
  from t 1 r 2 show ?thesis by blast
qed

text \<open>
  Claim C10. A token is left verbatim when some prefix of its path leads to a stored
  \<open>None\<close> (at the full path or at an intermediate step), just as when a segment is
  missing, so the output is the same in both cases; and the replacement is either the
  token's own text or the string of a value that is not \<open>None\<close>.
\<close>

theorem null_value_left_verbatim:
  "(spec_lookup (PDict vars) (take k (split_dot (strip inner))) = Some PNone \<longrightarrow>
      get_nested_value vars (strip inner) = PNone \<and> replace_var rp vars inner = token_text inner)
   \<and> (path_absent vars inner \<longrightarrow>
      get_nested_value vars (strip inner) = PNone \<and> replace_var rp vars inner = token_text inner)
   \<and> (replace_var rp vars inner = token_text inner
       \<or> (\<exists>v. v \<noteq> PNone \<and> replace_var rp vars inner = py_str rp v))"
proof (intro conjI impI)
  assume "spec_lookup (PDict vars) (take k (split_dot (strip inner))) = Some PNone"
  then have "get_nested_value vars (strip inner) = PNone"
    unfolding get_nested_value_def by (rule descend_null)
  then show "get_nested_value vars (strip inner) = PNone" "replace_var rp vars inner = token_text inner"
    by (simp_all add: replace_var_def)
next
  assume "path_absent vars inner"
  then have "get_nested_value vars (strip inner) = PNone" by (rule absent_unresolved)
  then show "get_nested_value vars (strip inner) = PNone" "replace_var rp vars inner = token_text inner"
    by (simp_all add: replace_var_def)
next
  show "replace_var rp vars inner = token_text inner
       \<or> (\<exists>v. v \<noteq> PNone \<and> replace_var rp vars inner = py_str rp v)"
    by (cases "get_nested_value vars (strip inner) = PNone") (auto simp: replace_var_def)
qed

text \<open>Witness for C10: \<open>input.a\<close> holds \<open>None\<close>; \<open>input.zz\<close> is missing.\<close>

theorem null_value_left_verbatim_witness:
  "spec_lookup (PDict [(ustr ''input'', PDict [(ustr ''a'', PNone), (ustr ''d'', PDict [])])])
       (take 2 (split_dot (strip (ustr ''input.a.b'')))) = Some PNone
   \<and> path_absent [(ustr ''input'', PDict [(ustr ''a'', PNone), (ustr ''d'', PDict [])])] (ustr ''input.zz'')
   \<and> replace_var (\<lambda>v. []) [(ustr ''input'', PDict [(ustr ''a'', PNone), (ustr ''d'', PDict [])])] (ustr ''input.a.b'')
        = ustr ''{{input.a.b}}''
   \<and> replace_var (\<lambda>v. []) [(ustr ''input'', PDict [(ustr ''a'', PNone), (ustr ''d'', PDict [])])] (ustr ''input.zz'')
        = ustr ''{{input.zz}}''"
proof -
  let ?V = "[(ustr ''input'', PDict [(ustr ''a'', PNone), (ustr ''d'', PDict [])])]"
  have a: "spec_lookup (PDict ?V) (take 2 (split_dot (strip (ustr ''input.a.b'')))) = Some PNone"
    by (simp add: eval_defs)
  have b: "path_absent ?V (ustr ''input.zz'')" by (simp add: path_absent_def eval_defs)
  from null_value_left_verbatim[of ?V 2 "ustr ''input.a.b''" "\<lambda>v. []"] a
  have 1: "replace_var (\<lambda>v. []) ?V (ustr ''input.a.b'') = token_text (ustr ''input.a.b'')" by blast
  from null_value_left_verbatim[of ?V 0 "ustr ''input.zz''" "\<lambda>v. []"] b
  have 2: "replace_var (\<lambda>v. []) ?V (ustr ''input.zz'') = token_text (ustr ''input.zz'')" by blast
  from a b 1 2 show ?thesis by (simp add: eval_defs)
qed

section \<open>Cycle detection finds exactly the cycles\<close>

lemma settled_rtrancl: "(b, v) \<in> E\<^sup>* \<Longrightarrow> settled E B \<Longrightarrow> b \<in> B \<Longrightarrow> v \<in> B"
  by (induction rule: rtrancl_induct) (auto simp: settled_def)

lemma settled_insert:
  assumes "settled E B" and succ: "\<forall>v. (n, v) \<in> E \<longrightarrow> v \<in> B" and "n \<notin> B"
  shows "settled E (insert n B)"
proof -
  have "(n, n) \<notin> E\<^sup>+"
  proof
    assume "(n, n) \<in> E\<^sup>+"
    then obtain m where "(n, m) \<in> E" "(m, n) \<in> E\<^sup>*" by (auto dest: tranclD)
    with succ assms(1) have "n \<in> B" using settled_rtrancl by metis
    with assms(3) show False by simp
  qed
  with assms show ?thesis by (auto simp: settled_def)
qed

lemma graph_rel_iff: "(u, v) \<in> graph_rel g \<longleftrightarrow> v \<in> set (graph_get g u)"
  by (simp add: graph_rel_def)

lemma dfs_correct:
  "dfs k g n s = Some r \<Longrightarrow> n \<notin> fst s \<Longrightarrow> dfs_inv g n s \<Longrightarrow> dfs_post g s {n} r"
  "dfs_neighbors k g ms s = Some r \<Longrightarrow> c \<in> snd s \<Longrightarrow> set ms \<subseteq> set (graph_get g c) \<Longrightarrow>
     dfs_inv g c s \<Longrightarrow> dfs_post g s (set ms) r"
proof (induction k g n s and k g ms s arbitrary: r and r c rule: dfs_dfs_neighbors.induct)
  case (1 g node s)
  then show ?case by simp
next
  case (2 k g node s)
  let ?E = "graph_rel g"
  let ?s1 = "(insert node (fst s), insert node (snd s))"
  from "2.prems"(1) obtain r0 where
    nb: "dfs_neighbors k g (graph_get g node) ?s1 = Some r0"
    by (auto split: option.splits)
  have nstk: "node \<notin> snd s" using "2.prems" by (auto simp: dfs_inv_def)
  have pre: "dfs_inv g node ?s1"
    using "2.prems"(2,3) by (auto simp: dfs_inv_def insert_Diff_if)
  have ih: "dfs_post g ?s1 (set (graph_get g node)) r0"
    by (rule "2.IH"[OF nb _ _ pre]) auto
  show ?case
  proof (cases "fst r0")
    case True
    with nb "2.prems"(1) ih show ?thesis by (cases r0) (auto simp: dfs_post_def)
  next
    case False
    with nb "2.prems"(1) have res: "r = (False, (fst (snd r0), snd (snd r0) - {node}))"
      by (cases r0) (auto split: prod.splits)
    from False ih have a: "snd (snd r0) = insert node (snd s)" "insert node (fst s) \<subseteq> fst (snd r0)"
      "set (graph_get g node) \<subseteq> fst (snd r0) - insert node (snd s)"
      "settled ?E (fst (snd r0) - insert node (snd s))" by (auto simp: dfs_post_def)
    have "settled ?E (insert node (fst (snd r0) - insert node (snd s)))"
      by (rule settled_insert[OF a(4)]) (use a(3) in \<open>auto simp: graph_rel_iff\<close>)
    moreover have "insert node (fst (snd r0) - insert node (snd s)) = fst (snd r0) - snd s"
      using a(2) nstk by auto
    ultimately show ?thesis using res a nstk by (auto simp: dfs_post_def)
  qed
next
  case (3 k g s)
  then show ?case by (auto simp: dfs_post_def dfs_inv_def)
next
  case (4 k g neighbor rest s)
  let ?E = "graph_rel g"
  have edge: "(c, neighbor) \<in> ?E" using "4.prems"(3) by (auto simp: graph_rel_iff)
  have sub: "set rest \<subseteq> set (graph_get g c)" using "4.prems"(3) by auto
  show ?case
  proof (cases "neighbor \<in> fst s")
    case True
    show ?thesis
    proof (cases "neighbor \<in> snd s")
      case True
      with \<open>neighbor \<in> fst s\<close> "4.prems"(1) have r: "fst r" by auto
      from True "4.prems"(4) have "(neighbor, c) \<in> ?E\<^sup>*" by (auto simp: dfs_inv_def)
      with edge have "(neighbor, neighbor) \<in> ?E\<^sup>+" by (meson rtrancl_into_trancl1)
      with r show ?thesis by (auto simp: cyclic_def dfs_post_def)
    next
      case False
      with True "4.prems"(1) have "dfs_neighbors k g rest s = Some r" by simp
      from "4.IH"(3)[OF _ False this "4.prems"(2) sub "4.prems"(4)] True
      have "dfs_post g s (set rest) r" by simp
      with True False show ?thesis by (auto simp: dfs_post_def)
    qed
  next
    case False
    with "4.prems"(1) obtain r1 where
      d: "dfs k g neighbor s = Some r1" by (auto split: option.splits)
    have inv1: "dfs_inv g neighbor s"
      using "4.prems"(4) edge unfolding dfs_inv_def by (meson rtrancl.rtrancl_into_rtrancl)
    have ih1: "dfs_post g s {neighbor} r1"
      by (rule "4.IH"(1)[OF False d False inv1])
    show ?thesis
    proof (cases "fst r1")
      case True
      with d False "4.prems"(1) ih1 show ?thesis by (cases r1) (auto simp: dfs_post_def)
    next
      case r1: False
      with d False "4.prems"(1) have rest: "dfs_neighbors k g rest (snd r1) = Some r"
        by (cases r1) auto
      from r1 ih1 have a: "snd (snd r1) = snd s" "fst s \<subseteq> fst (snd r1)" "neighbor \<in> fst (snd r1)"
        "neighbor \<notin> snd s" "settled ?E (fst (snd r1) - snd s)" by (auto simp: dfs_post_def)
      have inv2: "dfs_inv g c (snd r1)"
        using "4.prems"(4) a unfolding dfs_inv_def by auto
      obtain x y where r1eq: "(x, y) = r1" by (cases r1) auto
      have xF: "x = False" and y: "y = snd r1" using r1 r1eq by auto
      have cin: "c \<in> snd y" using a(1) "4.prems"(2) y by simp
      have ih2: "dfs_post g (snd r1) (set rest) r"
        using "4.IH"(2)[OF False d r1eq xF rest[folded y] cin sub inv2[folded y]] y by simp
      then show ?thesis using a unfolding dfs_post_def by (cases "fst r") (simp, simp, blast)
    qed
  qed
qed

lemma graph_get_vertices: "set (graph_get g n) \<subseteq> set (vertices g)"
proof (cases "map_of g n")
  case None then show ?thesis by (simp add: graph_get_def)
next
  case (Some ts)
  then have "(n, ts) \<in> set g" by (rule map_of_SomeD)
  then have "set ts \<subseteq> set (concat (map snd g))" by force
  with Some show ?thesis by (auto simp: graph_get_def vertices_def)
qed

lemma graph_get_key: "n \<in> fst ` set g" if "v \<in> set (graph_get g n)"
proof (cases "map_of g n")
  case None then show ?thesis using that by (simp add: graph_get_def)
next
  case (Some ts)
  then have "(n, ts) \<in> set g" by (rule map_of_SomeD)
  then show ?thesis by force
qed

lemma dfs_total:
  "finite V \<Longrightarrow> set (vertices g) \<subseteq> V \<Longrightarrow> n \<in> V \<Longrightarrow> n \<notin> fst s \<Longrightarrow> card (V - fst s) \<le> k \<Longrightarrow>
     \<exists>r. dfs k g n s = Some r \<and> fst s \<subseteq> fst (snd r)"
  "finite V \<Longrightarrow> set (vertices g) \<subseteq> V \<Longrightarrow> set ms \<subseteq> V \<Longrightarrow> card (V - fst s) \<le> k \<Longrightarrow>
     \<exists>r. dfs_neighbors k g ms s = Some r \<and> fst s \<subseteq> fst (snd r)"
proof (induction k g n s and k g ms s rule: dfs_dfs_neighbors.induct)
  case (1 g node s)
  then show ?case by auto
next
  case (2 k g node s)
  have succ: "set (graph_get g node) \<subseteq> V"
    using "2.prems"(2) graph_get_vertices[of g node] by blast
  have "V - insert node (fst s) = (V - fst s) - {node}" by auto
  moreover have "node \<in> V - fst s" using 2 by simp
  ultimately have "card (V - insert node (fst s)) < card (V - fst s)"
    using "2.prems"(1) by (metis card_Diff1_less finite_Diff)
  then have "card (V - fst (insert node (fst s), insert node (snd s))) \<le> k" using "2.prems"(5) by simp
  from "2.IH"[OF "2.prems"(1,2) succ this]
  obtain r0 where "dfs_neighbors k g (graph_get g node) (insert node (fst s), insert node (snd s)) = Some r0"
    "insert node (fst s) \<subseteq> fst (snd r0)" by auto
  then show ?case by (cases r0; cases "fst r0") (auto)
next
  case (3 k g s)
  then show ?case by simp
next
  case (4 k g neighbor rest s)
  show ?case
  proof (cases "neighbor \<in> fst s")
    case True
    show ?thesis
    proof (cases "neighbor \<in> snd s")
      case True with \<open>neighbor \<in> fst s\<close> show ?thesis by simp
    next
      case False
      from "4.IH"(3)[OF _ False "4.prems"(1,2) _ "4.prems"(4)] True "4.prems"(3)
      show ?thesis using False by auto
    qed
  next
    case False
    from "4.IH"(1)[OF False "4.prems"(1,2) _ False "4.prems"(4)] "4.prems"(3)
    obtain r1 where d: "dfs k g neighbor s = Some r1" and m: "fst s \<subseteq> fst (snd r1)" by auto
    show ?thesis
    proof (cases "fst r1")
      case True
      with d m False show ?thesis by (cases r1) auto
    next
      case r1: False
      obtain x y where r1eq: "(x, y) = r1" by (cases r1) auto
      have xF: "x = False" and y: "y = snd r1" using r1 r1eq by auto
      have "card (V - fst y) \<le> card (V - fst s)"
        using m y "4.prems"(1) by (intro card_mono) auto
      then have c: "card (V - fst y) \<le> k" using "4.prems"(4) by simp
      from "4.IH"(2)[OF False d r1eq xF "4.prems"(1,2) _ c] "4.prems"(3)
      obtain r2 where "dfs_neighbors k g rest y = Some r2" "fst y \<subseteq> fst (snd r2)" by auto
      with d m False r1 y show ?thesis by (cases r1) auto
    qed
  qed
qed

lemma loop_post_False: "A \<subseteq> B \<Longrightarrow> settled (graph_rel g) B \<Longrightarrow> loop_post g A False"
  unfolding loop_post_def by auto

lemma loop_post_mono: "loop_post g A b \<Longrightarrow> A' \<subseteq> A \<Longrightarrow> loop_post g A' b"
  unfolding loop_post_def by (cases b) auto

lemma has_cycle_loop_correct:
  assumes "finite V" "set (vertices g) \<subseteq> V" "set ns \<subseteq> V" "card V \<le> k"
    and "snd s = {}" "settled (graph_rel g) (fst s)"
  shows "\<exists>b. has_cycle_loop k g ns s = Some b \<and> loop_post g (fst s \<union> set ns) b"
  using assms(3,5,6)
proof (induction ns arbitrary: s)
  case Nil
  have "loop_post g (fst s \<union> set []) False"
    by (rule loop_post_False[OF _ Nil(3)]) simp
  then show ?case by (intro exI[of _ False]) simp
next
  case (Cons n ns)
  have ns: "set ns \<subseteq> V" and nV: "n \<in> V" using Cons.prems(1) by auto
  show ?case
  proof (cases "n \<in> fst s")
    case True
    from Cons.IH[OF ns Cons.prems(2,3)]
    obtain b where b: "has_cycle_loop k g ns s = Some b" "loop_post g (fst s \<union> set ns) b" by blast
    have "fst s \<union> set (n # ns) \<subseteq> fst s \<union> set ns" using True by auto
    from loop_post_mono[OF b(2) this] b(1) True show ?thesis by simp
  next
    case False
    have "card (V - fst s) \<le> card V" using assms(1) by (intro card_mono) auto
    then have "card (V - fst s) \<le> k" using assms(4) by simp
    from dfs_total(1)[OF assms(1,2) nV False this]
    obtain r where d: "dfs k g n s = Some r" by blast
    have "dfs_inv g n s" using Cons.prems by (simp add: dfs_inv_def)
    from dfs_correct(1)[OF d False this] have post: "dfs_post g s {n} r" .
    show ?thesis
    proof (cases "fst r")
      case True
      with post have "loop_post g (fst s \<union> set (n # ns)) True"
        by (simp add: dfs_post_def loop_post_def)
      moreover have "has_cycle_loop k g (n # ns) s = Some True"
        using d False True by (cases r) simp
      ultimately show ?thesis by blast
    next
      case r: False
      with post Cons.prems(2) have a: "snd (snd r) = {}" "fst s \<subseteq> fst (snd r)" "n \<in> fst (snd r)"
        "settled (graph_rel g) (fst (snd r))" by (simp_all add: dfs_post_def)
      from Cons.IH[OF ns a(1) a(4)]
      obtain b where b: "has_cycle_loop k g ns (snd r) = Some b"
        "loop_post g (fst (snd r) \<union> set ns) b" by blast
      have "has_cycle_loop k g (n # ns) s = Some b" using d False r b(1) by (cases r) simp
      moreover have "fst s \<union> set (n # ns) \<subseteq> fst (snd r) \<union> set ns" using a(2,3) by auto
      from loop_post_mono[OF b(2) this] have "loop_post g (fst s \<union> set (n # ns)) b" .
      ultimately show ?thesis by blast
    qed
  qed
qed

lemma settled_empty: "settled E {}"
  by (simp add: settled_def)

text \<open>A search that returns with one depth returns the same with any greater depth.\<close>

lemma dfs_mono:
  "dfs k g n s = Some r \<Longrightarrow> k \<le> k' \<Longrightarrow> dfs k' g n s = Some r"
  "dfs_neighbors k g ms s = Some r \<Longrightarrow> k \<le> k' \<Longrightarrow> dfs_neighbors k' g ms s = Some r"
proof (induction k g n s and k g ms s arbitrary: r k' and r k' rule: dfs_dfs_neighbors.induct)
  case (1 g node s)
  then show ?case by simp
next
  case (2 k g node s)
  from "2.prems"(2) obtain j where j: "k' = Suc j" "k \<le> j" by (cases k') auto
  from "2.prems"(1) obtain r0 where
    nb: "dfs_neighbors k g (graph_get g node) (insert node (fst s), insert node (snd s)) = Some r0"
    by (auto split: option.splits)
  from "2.IH"[OF nb j(2)]
  have "dfs_neighbors j g (graph_get g node) (insert node (fst s), insert node (snd s)) = Some r0" .
  with nb "2.prems"(1) j(1) show ?case by simp
next
  case (3 k g s)
  then show ?case by simp
next
  case (4 k g neighbor rest s)
  show ?case
  proof (cases "neighbor \<in> fst s")
    case True
    show ?thesis
    proof (cases "neighbor \<in> snd s")
      case True
      with \<open>neighbor \<in> fst s\<close> "4.prems"(1) show ?thesis by simp
    next
      case False
      with True "4.prems"(1) have "dfs_neighbors k g rest s = Some r" by simp
      from "4.IH"(3)[OF _ False this "4.prems"(2)] True False show ?thesis by simp
    qed
  next
    case False
    with "4.prems"(1) obtain r1 where d: "dfs k g neighbor s = Some r1"
      by (auto split: option.splits)
    from "4.IH"(1)[OF False d "4.prems"(2)] have d': "dfs k' g neighbor s = Some r1" .
    show ?thesis
    proof (cases "fst r1")
      case True
      with d d' False "4.prems"(1) show ?thesis by (cases r1) auto
    next
      case r1: False
      with d False "4.prems"(1) have rest: "dfs_neighbors k g rest (snd r1) = Some r"
        by (cases r1) auto
      obtain x y where r1eq: "(x, y) = r1" by (cases r1) auto
      have xF: "x = False" and y: "y = snd r1" using r1 r1eq by auto
      from "4.IH"(2)[OF False d r1eq xF rest[folded y] "4.prems"(2)]
      have "dfs_neighbors k' g rest (snd r1) = Some r" using y by simp
      with d' False r1 show ?thesis by (cases r1) auto
    qed
  qed
qed

lemma has_cycle_loop_mono:
  "has_cycle_loop k g ns s = Some b \<Longrightarrow> k \<le> k' \<Longrightarrow> has_cycle_loop k' g ns s = Some b"
proof (induction ns arbitrary: s)
  case Nil
  then show ?case by simp
next
  case (Cons n ns)
  show ?case
  proof (cases "n \<in> fst s")
    case True
    with Cons show ?thesis by simp
  next
    case False
    with Cons.prems(1) obtain r where d: "dfs k g n s = Some r" by (auto split: option.splits)
    from dfs_mono(1)[OF d Cons.prems(2)] have d': "dfs k' g n s = Some r" .
    show ?thesis
    proof (cases "fst r")
      case True
      with d d' False Cons.prems(1) show ?thesis by (cases r) auto
    next
      case r: False
      with d False Cons.prems(1) have "has_cycle_loop k g ns (snd r) = Some b" by (cases r) auto
      from Cons.IH[OF this Cons.prems(2)] d' False r show ?thesis by (cases r) auto
    qed
  qed
qed

text \<open>
  With room for as many nested calls as the graph has ids, the search returns, and it
  answers whether the edge relation has a cycle.
\<close>

lemma has_cycle_enough:
  assumes "card (set (vertices g)) \<le> limit"
  shows "has_cycle limit g = Some (cyclic (graph_rel g))"
proof -
  have k: "set (map fst g) \<subseteq> set (vertices g)" by (simp add: vertices_def)
  have e: "snd (({}, {}) :: dfs_state) = {}" "settled (graph_rel g) (fst (({}, {}) :: dfs_state))"
    by (simp_all add: settled_empty)
  from has_cycle_loop_correct[OF finite_set subset_refl k assms e]
  obtain b where b: "has_cycle_loop limit g (map fst g) ({}, {}) = Some b"
    and b2: "loop_post g (fst (({}, {}) :: dfs_state) \<union> set (map fst g)) b"
    by blast
  have "b = cyclic (graph_rel g)"
  proof (cases b)
    case True with b2 show ?thesis by (simp add: loop_post_def)
  next
    case False
    with b2 obtain B where B: "set (map fst g) \<subseteq> B" "settled (graph_rel g) B"
      by (auto simp: loop_post_def)
    have "\<not> cyclic (graph_rel g)"
    proof
      assume "cyclic (graph_rel g)"
      then obtain v where v: "(v, v) \<in> (graph_rel g)\<^sup>+" by (auto simp: cyclic_def)
      then obtain w where "(v, w) \<in> graph_rel g" by (auto dest: tranclD)
      then have "v \<in> fst ` set g" unfolding graph_rel_iff by (rule graph_get_key)
      with B(1) have "v \<in> B" by auto
      with B(2) v show False by (auto simp: settled_def)
    qed
    with False show ?thesis by simp
  qed
  with b show ?thesis by (simp add: has_cycle_def)
qed

text \<open>Whatever the limit, an answer of the search is the right one.\<close>

lemma has_cycle_sound:
  assumes "has_cycle limit g = Some b"
  shows "b = cyclic (graph_rel g)"
proof -
  let ?k = "max limit (card (set (vertices g)))"
  from assms have "has_cycle_loop limit g (map fst g) ({}, {}) = Some b" by (simp add: has_cycle_def)
  from has_cycle_loop_mono[OF this, of ?k] have "has_cycle ?k g = Some b" by (simp add: has_cycle_def)
  moreover have "has_cycle ?k g = Some (cyclic (graph_rel g))" by (rule has_cycle_enough) simp
  ultimately show ?thesis by simp
qed

section \<open>Building and validating the graph\<close>

lemma graph_get_update:
  "graph_get (AList.update k v g) n = (if n = k then v else graph_get g n)"
  by (simp add: graph_get_def update_conv')

lemma add_node_rel: "graph_rel (add_node g node) = graph_rel g"
proof -
  have "graph_get (add_node g node) n = graph_get g n" for n
  proof (cases "node_id node \<in> fst ` set g")
    case True then show ?thesis by (simp add: add_node_def)
  next
    case False
    show ?thesis
    proof (cases "map_of g n")
      case None
      with False show ?thesis by (simp add: add_node_def graph_get_def map_add_def)
    next
      case (Some ts)
      with False show ?thesis by (simp add: add_node_def graph_get_def)
    qed
  qed
  then show ?thesis by (simp add: graph_rel_def)
qed

lemma add_node_keys: "fst ` set (add_node g node) = insert (node_id node) (fst ` set g)"
  by (auto simp: add_node_def)

lemma add_node_distinct: "distinct (map fst g) \<Longrightarrow> distinct (map fst (add_node g node))"
  by (auto simp: add_node_def)

lemma foldl_add_node:
  "graph_rel (foldl add_node g ns) = graph_rel g"
  "fst ` set (foldl add_node g ns) = fst ` set g \<union> node_id ` set ns"
  "distinct (map fst g) \<Longrightarrow> distinct (map fst (foldl add_node g ns))"
  by (induction ns arbitrary: g) (auto simp: add_node_rel add_node_keys add_node_distinct)

lemma add_edge_rel: "graph_rel (add_edge g e) = insert e (graph_rel g)"
  by (cases e) (auto simp: add_edge_def graph_rel_def graph_get_update split: if_splits)

lemma add_edge_keys: "fst ` set (add_edge g e) = insert (fst e) (fst ` set g)"
  by (simp add: add_edge_def dom_update)

lemma add_edge_distinct: "distinct (map fst g) \<Longrightarrow> distinct (map fst (add_edge g e))"
  by (simp add: add_edge_def distinct_update)

lemma foldl_add_edge:
  "graph_rel (foldl add_edge g es) = graph_rel g \<union> set es"
  "fst ` set (foldl add_edge g es) = fst ` set g \<union> fst ` set es"
  "distinct (map fst g) \<Longrightarrow> distinct (map fst (foldl add_edge g es))"
  by (induction es arbitrary: g) (auto simp: add_edge_rel add_edge_keys add_edge_distinct)

lemma graph_rel_Nil: "graph_rel [] = {}"
  by (simp add: graph_rel_def graph_get_def)

lemma build_rel: "graph_rel (build_execution_graph d) = set (edges d)"
  by (simp add: build_execution_graph_def foldl_add_edge foldl_add_node graph_rel_Nil)

lemma build_keys:
  "fst ` set (build_execution_graph d) = node_id ` set (nodes d) \<union> fst ` set (edges d)"
  by (simp add: build_execution_graph_def foldl_add_edge foldl_add_node)

lemma build_distinct: "distinct (map fst (build_execution_graph d))"
  by (simp add: build_execution_graph_def foldl_add_edge foldl_add_node)

lemma concat_snd_rel:
  assumes "distinct (map fst g)"
  shows "set (concat (map snd g)) = snd ` graph_rel g"
proof (rule set_eqI)
  fix v
  have "v \<in> set (concat (map snd g)) \<longleftrightarrow> (\<exists>u ts. (u, ts) \<in> set g \<and> v \<in> set ts)" by (simp only: set_concat set_map) force
  also have "\<dots> \<longleftrightarrow> (\<exists>u ts. map_of g u = Some ts \<and> v \<in> set ts)" by (meson map_of_SomeD map_of_is_SomeI[OF assms])
  also have "\<dots> \<longleftrightarrow> (\<exists>u. v \<in> set (graph_get g u))"
  proof
    assume "\<exists>u ts. map_of g u = Some ts \<and> v \<in> set ts"
    then obtain u ts where "map_of g u = Some ts" "v \<in> set ts" by blast
    then have "v \<in> set (graph_get g u)" by (simp add: graph_get_def)
    then show "\<exists>u. v \<in> set (graph_get g u)" by blast
  next
    assume "\<exists>u. v \<in> set (graph_get g u)"
    then obtain u where "v \<in> set (graph_get g u)" by blast
    then show "\<exists>u ts. map_of g u = Some ts \<and> v \<in> set ts"
      by (cases "map_of g u") (auto simp: graph_get_def)
  qed
  also have "\<dots> \<longleftrightarrow> v \<in> snd ` graph_rel g" by (force simp: graph_rel_def)
  finally show "v \<in> set (concat (map snd g)) \<longleftrightarrow> v \<in> snd ` graph_rel g" .
qed

lemma build_vertices:
  "set (vertices (build_execution_graph d)) =
     node_id ` set (nodes d) \<union> fst ` set (edges d) \<union> snd ` set (edges d)"
proof -
  let ?g = "build_execution_graph d"
  have "set (vertices ?g) = fst ` set ?g \<union> set (concat (map snd ?g))"
    unfolding vertices_def by (simp only: set_append set_map)
  also have "\<dots> = fst ` set ?g \<union> snd ` graph_rel ?g"
    by (simp only: concat_snd_rel[OF build_distinct])
  finally show ?thesis by (simp only: build_rel build_keys)
qed

lemma validate_graph_sound:
  "validate_graph limit (build_execution_graph d) = Inr () \<Longrightarrow> \<not> cyclic (set (edges d))"
  "validate_graph limit (build_execution_graph d) = Inl (Exn WorkflowEngineError m) \<Longrightarrow> cyclic (set (edges d))"
  using has_cycle_sound[of limit "build_execution_graph d"]
  by (auto simp: validate_graph_def build_rel split: option.splits bool.splits)

lemma validate_graph_iff:
  "card (node_id ` set (nodes d) \<union> fst ` set (edges d) \<union> snd ` set (edges d)) \<le> limit \<Longrightarrow>
   validate_graph limit (build_execution_graph d) =
     (if cyclic (set (edges d))
      then Inl (Exn WorkflowEngineError (ustr ''Workflow contains circular dependencies''))
      else Inr ())"
  by (simp add: validate_graph_def has_cycle_enough build_vertices build_rel)

lemma validate_graph_cases:
  "validate_graph limit g = Inr () \<or>
   validate_graph limit g = Inl (Exn WorkflowEngineError (ustr ''Workflow contains circular dependencies'')) \<or>
   validate_graph limit g = Inl (Exn OtherException (ustr ''maximum recursion depth exceeded''))"
  by (simp add: validate_graph_def split: option.splits bool.splits)

lemma self_loop_cyclic: "(n, n) \<in> E \<Longrightarrow> cyclic E"
  by (auto simp: cyclic_def)

text \<open>
  The depth of the search depends on the order in which the nodes are listed: with room
  for two nested calls, the chain \<open>a \<rightarrow> b \<rightarrow> c\<close> is accepted when its nodes are listed
  from the sink, and the search raises \<open>RecursionError\<close> when they are listed from the
  source.
\<close>

lemma search_depth_depends_on_order:
  "validate_graph 2 (build_execution_graph
      \<lparr>nodes = [\<lparr>node_id = ustr ''c'', node_type = ustr ''output'', node_config = []\<rparr>,
                \<lparr>node_id = ustr ''b'', node_type = ustr ''llm'', node_config = []\<rparr>,
                \<lparr>node_id = ustr ''a'', node_type = ustr ''input'', node_config = []\<rparr>],
       edges = [(ustr ''a'', ustr ''b''), (ustr ''b'', ustr ''c'')]\<rparr>) = Inr ()"
  "validate_graph 2 (build_execution_graph
      \<lparr>nodes = [\<lparr>node_id = ustr ''a'', node_type = ustr ''input'', node_config = []\<rparr>,
                \<lparr>node_id = ustr ''b'', node_type = ustr ''llm'', node_config = []\<rparr>,
                \<lparr>node_id = ustr ''c'', node_type = ustr ''output'', node_config = []\<rparr>],
       edges = [(ustr ''a'', ustr ''b''), (ustr ''b'', ustr ''c'')]\<rparr>)
     = Inl (Exn OtherException (ustr ''maximum recursion depth exceeded''))"
  by (simp_all add: validate_graph_def has_cycle_def build_execution_graph_def add_node_def
      add_edge_def graph_get_def ustr_def eval_nat_numeral)

text \<open>
  Claim C8, as stated, fails: a definition with the self-loop \<open>n1 \<rightarrow> n1\<close> is rejected by
  graph validation, as a circular dependency (the recursion limit, here the
  interpreter's 1000, plays no part in it).
\<close>

theorem self_loop_rejected_counterexample:
  "validate_graph 1000 (build_execution_graph
      \<lparr>nodes = [\<lparr>node_id = ustr ''n1'', node_type = ustr ''input'', node_config = []\<rparr>],
       edges = [(ustr ''n1'', ustr ''n1'')]\<rparr>)
   = Inl (Exn WorkflowEngineError (ustr ''Workflow contains circular dependencies''))"
  by (simp add: validate_graph_iff self_loop_cyclic card_insert_if)

text \<open>
  Claim C8, amended. \<open>limit\<close> is the depth that the interpreter's recursion limit leaves
  to the search. Graph validation has three outcomes: it accepts, it rejects with the
  error about circular dependencies, or the search raises \<open>RecursionError\<close>. Whatever
  the limit, it accepts only when the edge relation has no cycle, and it reports circular
  dependencies only when the edge relation has one. When the ids of the definition (of
  its nodes and of the endpoints of its edges) are no more than the limit, validation
  rejects exactly when the edge relation has a cycle, and two such definitions with the
  same set of edges are treated alike: listing an edge more than once changes nothing.
  A self-loop is a cycle and is never accepted.
\<close>

theorem validation_rejects_exactly_cycles:
  "(validate_graph limit (build_execution_graph d) = Inr () \<longrightarrow> \<not> cyclic (set (edges d)))
   \<and> (validate_graph limit (build_execution_graph d)
         = Inl (Exn WorkflowEngineError (ustr ''Workflow contains circular dependencies''))
       \<longrightarrow> cyclic (set (edges d)))
   \<and> (validate_graph limit (build_execution_graph d) = Inr () \<or>
      validate_graph limit (build_execution_graph d)
         = Inl (Exn WorkflowEngineError (ustr ''Workflow contains circular dependencies'')) \<or>
      validate_graph limit (build_execution_graph d)
         = Inl (Exn OtherException (ustr ''maximum recursion depth exceeded'')))
   \<and> (card (node_id ` set (nodes d) \<union> fst ` set (edges d) \<union> snd ` set (edges d)) \<le> limit \<longrightarrow>
        validate_graph limit (build_execution_graph d) =
          (if cyclic (set (edges d))
           then Inl (Exn WorkflowEngineError (ustr ''Workflow contains circular dependencies''))
           else Inr ()))
   \<and> (card (node_id ` set (nodes d) \<union> fst ` set (edges d) \<union> snd ` set (edges d)) \<le> limit \<and>
      card (node_id ` set (nodes d') \<union> fst ` set (edges d') \<union> snd ` set (edges d')) \<le> limit \<and>
      set (edges d') = set (edges d) \<longrightarrow>
        validate_graph limit (build_execution_graph d') = validate_graph limit (build_execution_graph d))
   \<and> ((n, n) \<in> set (edges d) \<longrightarrow> validate_graph limit (build_execution_graph d) \<noteq> Inr ())"
proof -
  have 1: "validate_graph limit (build_execution_graph d) = Inr () \<longrightarrow> \<not> cyclic (set (edges d))"
    using validate_graph_sound(1)[of limit d] by blast
  have 2: "validate_graph limit (build_execution_graph d)
         = Inl (Exn WorkflowEngineError (ustr ''Workflow contains circular dependencies''))
       \<longrightarrow> cyclic (set (edges d))"
    using validate_graph_sound(2)[of limit d] by blast
  have 6: "(n, n) \<in> set (edges d) \<longrightarrow> validate_graph limit (build_execution_graph d) \<noteq> Inr ()"
    using 1 self_loop_cyclic[of n "set (edges d)"] by blast
  have 5: "card (node_id ` set (nodes d) \<union> fst ` set (edges d) \<union> snd ` set (edges d)) \<le> limit \<and>
      card (node_id ` set (nodes d') \<union> fst ` set (edges d') \<union> snd ` set (edges d')) \<le> limit \<and>
      set (edges d') = set (edges d) \<longrightarrow>
        validate_graph limit (build_execution_graph d') = validate_graph limit (build_execution_graph d)"
  proof
    assume h: "card (node_id ` set (nodes d) \<union> fst ` set (edges d) \<union> snd ` set (edges d)) \<le> limit \<and>
      card (node_id ` set (nodes d') \<union> fst ` set (edges d') \<union> snd ` set (edges d')) \<le> limit \<and>
      set (edges d') = set (edges d)"
    from h have e: "set (edges d') = set (edges d)" by blast
    from h validate_graph_iff[of d limit] validate_graph_iff[of d' limit]
    show "validate_graph limit (build_execution_graph d') = validate_graph limit (build_execution_graph d)"
      unfolding e by presburger
  qed
  from 1 2 validate_graph_cases[of limit "build_execution_graph d"] validate_graph_iff[of d limit] 5 6
  show ?thesis by blast
qed

text \<open>
  Witness for C8 (amended), with the interpreter's limit of 1000: \<open>a \<rightarrow> b\<close> listed twice is
  treated like \<open>a \<rightarrow> b\<close> and accepted; the self-loop \<open>a \<rightarrow> a\<close> is rejected as a circular
  dependency.
\<close>

theorem validation_rejects_exactly_cycles_witness:
  "validate_graph 1000 (build_execution_graph
      \<lparr>nodes = [\<lparr>node_id = ustr ''a'', node_type = ustr ''input'', node_config = []\<rparr>,
                \<lparr>node_id = ustr ''b'', node_type = ustr ''output'', node_config = []\<rparr>],
       edges = [(ustr ''a'', ustr ''b''), (ustr ''a'', ustr ''b'')]\<rparr>)
     = validate_graph 1000 (build_execution_graph
      \<lparr>nodes = [\<lparr>node_id = ustr ''a'', node_type = ustr ''input'', node_config = []\<rparr>,
                \<lparr>node_id = ustr ''b'', node_type = ustr ''output'', node_config = []\<rparr>],
       edges = [(ustr ''a'', ustr ''b'')]\<rparr>)
   \<and> validate_graph 1000 (build_execution_graph
      \<lparr>nodes = [\<lparr>node_id = ustr ''a'', node_type = ustr ''input'', node_config = []\<rparr>,
                \<lparr>node_id = ustr ''b'', node_type = ustr ''output'', node_config = []\<rparr>],
       edges = [(ustr ''a'', ustr ''b''), (ustr ''a'', ustr ''b'')]\<rparr>) = Inr ()
   \<and> validate_graph 1000 (build_execution_graph
      \<lparr>nodes = [\<lparr>node_id = ustr ''a'', node_type = ustr ''input'', node_config = []\<rparr>],
       edges = [(ustr ''a'', ustr ''a'')]\<rparr>)
     = Inl (Exn WorkflowEngineError (ustr ''Workflow contains circular dependencies''))"
proof -
  let ?a = "\<lparr>node_id = ustr ''a'', node_type = ustr ''input'', node_config = []\<rparr>"
  let ?b = "\<lparr>node_id = ustr ''b'', node_type = ustr ''output'', node_config = []\<rparr>"
  let ?d2 = "\<lparr>nodes = [?a, ?b], edges = [(ustr ''a'', ustr ''b''), (ustr ''a'', ustr ''b'')]\<rparr>"
  let ?d1 = "\<lparr>nodes = [?a, ?b], edges = [(ustr ''a'', ustr ''b'')]\<rparr>"
  let ?d0 = "\<lparr>nodes = [?a], edges = [(ustr ''a'', ustr ''a'')]\<rparr>"
  have c1: "card (node_id ` set (nodes ?d1) \<union> fst ` set (edges ?d1) \<union> snd ` set (edges ?d1)) \<le> 1000"
    by (simp add: ustr_def card_insert_if)
  have c2: "card (node_id ` set (nodes ?d2) \<union> fst ` set (edges ?d2) \<union> snd ` set (edges ?d2)) \<le> 1000"
    by (simp add: ustr_def card_insert_if)
  have c0: "card (node_id ` set (nodes ?d0) \<union> fst ` set (edges ?d0) \<union> snd ` set (edges ?d0)) \<le> 1000"
    by (simp add: ustr_def card_insert_if)
  have m: "set (edges ?d2) = set (edges ?d1)" by simp
  have 1: "validate_graph 1000 (build_execution_graph ?d2) = validate_graph 1000 (build_execution_graph ?d1)"
    using validation_rejects_exactly_cycles[of 1000 ?d1 ?d2] c1 c2 m by blast
  have s: "validate_graph 2 (build_execution_graph ?d2) = Inr ()"
    by (simp add: validate_graph_def has_cycle_def build_execution_graph_def add_node_def
        add_edge_def graph_get_def ustr_def eval_nat_numeral)
  have a: "\<not> cyclic (set (edges ?d2))"
    using validation_rejects_exactly_cycles[of 2 ?d2] s by blast
  have "card (node_id ` set (nodes ?d2) \<union> fst ` set (edges ?d2) \<union> snd ` set (edges ?d2)) \<le> 1000 \<longrightarrow>
        validate_graph 1000 (build_execution_graph ?d2) =
          (if cyclic (set (edges ?d2))
           then Inl (Exn WorkflowEngineError (ustr ''Workflow contains circular dependencies''))
           else Inr ())"
    using validation_rejects_exactly_cycles[of 1000 ?d2] by blast
  with c2 a have 2: "validate_graph 1000 (build_execution_graph ?d2) = Inr ()" by simp
  have l: "(ustr ''a'', ustr ''a'') \<in> set (edges ?d0)" by simp
  have 3: "validate_graph 1000 (build_execution_graph ?d0)
     = Inl (Exn WorkflowEngineError (ustr ''Workflow contains circular dependencies''))"
  proof -
    have "card (node_id ` set (nodes ?d0) \<union> fst ` set (edges ?d0) \<union> snd ` set (edges ?d0)) \<le> 1000 \<longrightarrow>
        validate_graph 1000 (build_execution_graph ?d0) =
          (if cyclic (set (edges ?d0))
           then Inl (Exn WorkflowEngineError (ustr ''Workflow contains circular dependencies''))
           else Inr ())"
      using validation_rejects_exactly_cycles[of 1000 ?d0] by blast
    with c0 have v: "validate_graph 1000 (build_execution_graph ?d0) =
          (if cyclic (set (edges ?d0))
           then Inl (Exn WorkflowEngineError (ustr ''Workflow contains circular dependencies''))
           else Inr ())" by blast
    have "(ustr ''a'', ustr ''a'') \<in> set (edges ?d0) \<longrightarrow> validate_graph 1000 (build_execution_graph ?d0) \<noteq> Inr ()"
      using validation_rejects_exactly_cycles[of 1000 ?d0 ?d0 "ustr ''a''"] by blast
    with l have "validate_graph 1000 (build_execution_graph ?d0) \<noteq> Inr ()" by blast
    with v show ?thesis by (simp split: if_splits)
  qed
  from 1 2 3 show ?thesis by blast
qed

section \<open>Effects of the methods of the context\<close>

lemma fire_result:
  "fire ev c = (r, c') \<Longrightarrow> c' = c \<or> c' = c\<lparr>events := events c @ [ev]\<rparr>"
  by (auto simp: fire_def split: option.splits)

lemma fire_fields:
  assumes "fire ev c = (r, c')"
  shows "node_statuses c' = node_statuses c" "node_outputs c' = node_outputs c"
    "variables c' = variables c" "invoked c' = invoked c" "logs c' = logs c"
    "status c' = status c" "error c' = error c" "callback c' = callback c"
    "input_data c' = input_data c"
  using fire_result[OF assms] by auto

lemma add_log_fields:
  assumes "add_log l m n c = (r, c')"
  shows "node_statuses c' = node_statuses c" "node_outputs c' = node_outputs c"
    "variables c' = variables c" "invoked c' = invoked c"
    "status c' = status c" "error c' = error c" "callback c' = callback c"
    "input_data c' = input_data c"
    "logs c' = logs c @ [\<lparr>lg_level = l, lg_message = m, lg_node = n\<rparr>]"
  using assms fire_fields[of "LogEvent \<lparr>lg_level = l, lg_message = m, lg_node = n\<rparr>"
      "c\<lparr>logs := logs c @ [\<lparr>lg_level = l, lg_message = m, lg_node = n\<rparr>]\<rparr>" r c']
  by (simp_all add: add_log_def Let_def)

lemma set_node_status_fields:
  assumes "set_node_status nid st c = (r, c')"
  shows "node_statuses c' = AList.update nid st (node_statuses c)" "node_outputs c' = node_outputs c"
    "variables c' = variables c" "invoked c' = invoked c" "logs c' = logs c"
    "status c' = status c" "error c' = error c" "callback c' = callback c"
    "input_data c' = input_data c"
  using assms fire_fields[of "NodeStatusEvent nid st"
      "c\<lparr>node_statuses := AList.update nid st (node_statuses c)\<rparr>" r c']
  by (simp_all add: set_node_status_def)

lemma set_node_output_fields:
  assumes "set_node_output nid out c = (r, c')"
  shows "node_statuses c' = node_statuses c"
    "node_outputs c' = AList.update nid out (node_outputs c)"
    "variables c' = AList.update (ustr ''nodes.'' @ nid) out (variables c)"
    "invoked c' = invoked c" "logs c' = logs c" "r = Inr ()"
    "status c' = status c" "error c' = error c" "callback c' = callback c"
    "input_data c' = input_data c"
  using assms by (auto simp: set_node_output_def)

lemma interp_fields:
  "interp p nid c = (r, c') \<Longrightarrow>
     node_statuses c' = node_statuses c \<and> node_outputs c' = node_outputs c \<and>
     variables c' = variables c \<and> invoked c' = invoked c \<and>
     status c' = status c \<and> error c' = error c \<and> callback c' = callback c \<and>
     input_data c' = input_data c"
proof (induction p arbitrary: c)
  case (Return x)
  then show ?case by simp
next
  case (AddLog level msg k)
  obtain r1 c1 where a: "add_log level (Text msg) (Some nid) c = (r1, c1)"
    by (cases "add_log level (Text msg) (Some nid) c")
  show ?case
  proof (cases r1)
    case (Inl e)
    with a AddLog.prems have "interp (k (Some e)) nid c1 = (r, c')" by simp
    from AddLog.IH[OF _ this] add_log_fields[OF a] show ?thesis by simp
  next
    case (Inr u)
    with a AddLog.prems have "interp (k None) nid c1 = (r, c')" by simp
    from AddLog.IH[OF _ this] add_log_fields[OF a] show ?thesis by simp
  qed
qed


section \<open>Runs of definitions with a cycle\<close>













section \<open>The observer callback\<close>


































end
